theory Spec2Isabelle
  imports Main
begin

section \<open>An intrusive linked stack: the store of nodes\<close>

text \<open>
  The library links caller-owned objects through their \<^verbatim>\<open>parent\<close> field. A node is an
  object with identity, so the model keeps an explicit store: a reference is a number, and
  the store gives the object found at each reference. An object is its non-link fields
  (a finite map from field names to values) and its \<^verbatim>\<open>parent\<close> slot, which holds either
  nothing or a reference. A stack object is passed and returned explicitly.

  \<^verbatim>\<open>count\<close> is a JavaScript number, a double, that the code only increments and
  decrements by one. It is modelled as an integer, which may be negative in a corrupted
  stack. On a double, adding or subtracting one is exact as long as the value and the
  result are safe integers, of magnitude below \<^verbatim>\<open>2^53\<close>; beyond that the double rounds and
  the integer of the model does not. A \<open>count\<close> that counts the linked nodes of a stack is a
  safe integer, since a program holds far fewer than \<^verbatim>\<open>2^53\<close> objects. Where a property
  speaks of a \<open>count\<close> that need not count nodes, it is stated for safe integers.
\<close>

type_synonym ref = nat

record 'v StackNode =
  own_props :: "string \<rightharpoonup> 'v"
  parent :: "ref option"

type_synonym 'v heap = "ref \<Rightarrow> 'v StackNode"

record Stack =
  top_node :: "ref option"
  count :: int

text \<open>\<^verbatim>\<open>Number.isSafeInteger\<close>, on the integers.\<close>

definition isSafeInteger :: "int \<Rightarrow> bool" where
  "isSafeInteger c = (\<bar>c\<bar> \<le> 2 ^ 53 - 1)"

text \<open>
  What an operation raises: the \<^verbatim>\<open>TypeError\<close> of the language, or whatever a function of
  the caller throws.
\<close>

datatype error = TypeError | Thrown string

subsection \<open>src/structures/Stack.ts\<close>

text \<open>\<^verbatim>\<open>const sentinel = void 0\<close>: the absent value.\<close>

definition sentinel :: "ref option" where
  "sentinel = None"

text \<open>
  Modelled from the spec: \<^verbatim>\<open>guard\<close> is imported from the package
  \<^verbatim>\<open>@cosmicmind/foundationjs\<close>, whose source is not part of the repository. The code uses it
  with no attribute keys, as the test that a value is a present object: it holds of a node
  and fails of the empty marker.
\<close>

definition guard :: "ref option \<Rightarrow> bool" where
  "guard x = (case x of None \<Rightarrow> False | Some _ \<Rightarrow> True)"


text \<open>
  \<^verbatim>\<open>stackNodeCreate(props?)\<close> builds the object \<^verbatim>\<open>{ ...(props ?? {}), parent: sentinel }\<close>.
  The \<^verbatim>\<open>parent\<close> entry comes last, so it wins over anything spread from \<open>props\<close>.
\<close>

definition stackNodeCreate :: "(string \<rightharpoonup> 'v) option \<Rightarrow> 'v StackNode" where
  "stackNodeCreate props =
     \<lparr> own_props = (case props of None \<Rightarrow> Map.empty | Some p \<Rightarrow> p), parent = sentinel \<rparr>"

definition stackCreate :: "Stack" where
  "stackCreate = \<lparr> top_node = sentinel, count = 0 \<rparr>"

definition stackPeek :: "Stack \<Rightarrow> ref option" where
  "stackPeek stack = top_node stack"

text \<open>
  \<^verbatim>\<open>node.parent = stack.top; stack.top = node; ++stack.count\<close>. The operations that
  mutate return the new stack object and the new store. \<^verbatim>\<open>++stack.count\<close> here and
  \<^verbatim>\<open>--stack.count\<close> in \<^verbatim>\<open>stackPop\<close> are the successor and the predecessor of the
  integers, which is what they are on a double that holds a safe integer.
\<close>

definition stackPush :: "Stack \<Rightarrow> 'v heap \<Rightarrow> ref \<Rightarrow> Stack \<times> 'v heap" where
  "stackPush stack h node =
     (let h1 = h(node := (h node)\<lparr> parent := top_node stack \<rparr>);
          stack1 = stack\<lparr> top_node := Some node \<rparr>;
          stack2 = stack1\<lparr> count := count stack1 + 1 \<rparr>
      in (stack2, h1))"

text \<open>
  \<^verbatim>\<open>stackPop\<close> returns \<open>n\<close>, the old top, in both branches. In the guarded branch the new
  top is read from \<open>n.parent\<close> before that slot is reset.
\<close>

definition stackPop :: "Stack \<Rightarrow> 'v heap \<Rightarrow> ref option \<times> Stack \<times> 'v heap" where
  "stackPop stack h =
     (let n = top_node stack in
      if guard n then
        (case n of
           Some r \<Rightarrow>
             (let stack1 = stack\<lparr> top_node := parent (h r) \<rparr>;
                  h1 = h(r := (h r)\<lparr> parent := sentinel \<rparr>);
                  stack2 = stack1\<lparr> count := count stack1 - 1 \<rparr>
              in (n, stack2, h1))
         | None \<Rightarrow> (n, stack, h))
      else (n, stack, h))"

text \<open>
  The three generators share one loop, \<^verbatim>\<open>while (guard(n)) { yield n; n = n.parent }\<close>,
  and differ in where \<open>n\<close> starts. The model of a generator is the list of the values it
  yields when it is consumed to its end with the store unchanged; on a chain of parents
  that never reaches the empty marker the loop does not end, and the value is \<open>None\<close>.
\<close>

partial_function (option) yieldParents :: "'v heap \<Rightarrow> ref option \<Rightarrow> ref list option" where
  "yieldParents h n =
     (case n of
        None \<Rightarrow> Some []
      | Some r \<Rightarrow> Option.bind (yieldParents h (parent (h r))) (\<lambda>rest. Some (r # rest)))"

definition stackIterator :: "Stack \<Rightarrow> 'v heap \<Rightarrow> ref list option" where
  "stackIterator stack h = yieldParents h (top_node stack)"

definition stackIterateFrom :: "'v heap \<Rightarrow> ref \<Rightarrow> ref list option" where
  "stackIterateFrom h node = yieldParents h (Some node)"

definition stackIterateToParent :: "'v heap \<Rightarrow> ref \<Rightarrow> ref list option" where
  "stackIterateToParent h node = yieldParents h (parent (h node))"

text \<open>\<^verbatim>\<open>while (guard(stack.top)) { stackPop(stack) }\<close>\<close>

partial_function (option) stackClear :: "Stack \<Rightarrow> 'v heap \<Rightarrow> (Stack \<times> 'v heap) option" where
  "stackClear stack h =
     (if guard (top_node stack)
      then (case stackPop stack h of (_, stack1, h1) \<Rightarrow> stackClear stack1 h1)
      else Some (stack, h))"

text \<open>
  \<^verbatim>\<open>stackDepth\<close>: \<open>n\<close> starts at \<^verbatim>\<open>node.parent\<close>, \<open>depth\<close> at 0, and the loop counts while
  \<open>n\<close> is a node.
\<close>

partial_function (option) stackDepth_loop :: "'v heap \<Rightarrow> ref option \<Rightarrow> int \<Rightarrow> int option" where
  "stackDepth_loop h n depth =
     (case n of
        None \<Rightarrow> Some depth
      | Some r \<Rightarrow> stackDepth_loop h (parent (h r)) (depth + 1))"

definition stackDepth :: "'v heap \<Rightarrow> ref \<Rightarrow> int option" where
  "stackDepth h node = stackDepth_loop h (parent (h node)) 0"






text \<open>
  \<^verbatim>\<open>stackQuery\<close>: the inner loop runs through the predicates and leaves for the next node
  at the first one that fails; a node that passes them all is added to the set \<open>r\<close>. The
  outer loop has no early exit, so it runs over everything \<^verbatim>\<open>stackIterator\<close> yields, and
  does not return when the generator does not end. The predicates are taken to be pure.
\<close>

fun passesAll :: "(ref \<Rightarrow> bool) list \<Rightarrow> ref \<Rightarrow> bool" where
  "passesAll [] n = True"
| "passesAll (f # fn) n = (if f n then passesAll fn n else False)"

fun stackQuery_loop :: "(ref \<Rightarrow> bool) list \<Rightarrow> ref list \<Rightarrow> ref set \<Rightarrow> ref set" where
  "stackQuery_loop fn [] r = r"
| "stackQuery_loop fn (n # rest) r =
     stackQuery_loop fn rest (if passesAll fn n then insert n r else r)"

definition stackQuery :: "Stack \<Rightarrow> 'v heap \<Rightarrow> (ref \<Rightarrow> bool) list \<Rightarrow> ref set option" where
  "stackQuery stack h fn =
     Option.bind (stackIterator stack h) (\<lambda>ns. Some (stackQuery_loop fn ns {}))"

subsection \<open>The second source file (the variant with the shared \<^verbatim>\<open>SentinelNode\<close>)\<close>




























subsection \<open>Chains of parents, and sequences of calls\<close>

text \<open>
  \<open>linked h x ns\<close>: following the \<^verbatim>\<open>parent\<close> slots from the slot \<open>x\<close> passes through
  exactly the nodes \<open>ns\<close>, in that order, and then reaches the empty marker.
\<close>

fun linked :: "'v heap \<Rightarrow> ref option \<Rightarrow> ref list \<Rightarrow> bool" where
  "linked h x [] = (x = sentinel)"
| "linked h x (n # ns) = (x = Some n \<and> linked h (parent (h n)) ns)"

text \<open>
  \<open>reaches h x n\<close>: the node \<open>n\<close> is met when the parents are followed from the slot \<open>x\<close>,
  whether or not the chain ever ends. \<open>linkedNodes\<close> is the set of these nodes.
\<close>

inductive reaches :: "'v heap \<Rightarrow> ref option \<Rightarrow> ref \<Rightarrow> bool" where
  reaches_here: "reaches h (Some n) n"
| reaches_hop: "reaches h (parent (h m)) n \<Longrightarrow> reaches h (Some m) n"

definition linkedNodes :: "'v heap \<Rightarrow> ref option \<Rightarrow> ref set" where
  "linkedNodes h x = {n. reaches h x n}"

text \<open>Pushing a list of nodes in order, and popping \<open>k\<close> times, collecting what is returned.\<close>

fun pushAll :: "Stack \<Rightarrow> 'v heap \<Rightarrow> ref list \<Rightarrow> Stack \<times> 'v heap" where
  "pushAll stack h [] = (stack, h)"
| "pushAll stack h (node # nodes) =
     (case stackPush stack h node of (stack1, h1) \<Rightarrow> pushAll stack1 h1 nodes)"

fun popTimes :: "nat \<Rightarrow> Stack \<Rightarrow> 'v heap \<Rightarrow> ref option list \<times> Stack \<times> 'v heap" where
  "popTimes 0 stack h = ([], stack, h)"
| "popTimes (Suc k) stack h =
     (case stackPop stack h of
        (n, stack1, h1) \<Rightarrow>
          (case popTimes k stack1 h1 of (ns, stack2, h2) \<Rightarrow> (n # ns, stack2, h2)))"

text \<open>
  The states a stack goes through when it is used under the single-linkage contract: it
  starts as a new stack; a node is pushed only when it is not linked in the stack at that
  moment; it is popped and cleared freely; and whatever else runs in between (the creation
  of nodes, the operations of other stacks on their own nodes) leaves the nodes linked in
  this stack as they are. \<^verbatim>\<open>stackPush\<close> overwrites the \<^verbatim>\<open>parent\<close> slot of the node it is
  given, so no condition on that slot is needed.
\<close>

inductive contractUse :: "Stack \<Rightarrow> 'v heap \<Rightarrow> bool" where
  created: "contractUse stackCreate h"
| pushed: "contractUse stack h \<Longrightarrow> stackIterator stack h = Some ns \<Longrightarrow> node \<notin> set ns
           \<Longrightarrow> stackPush stack h node = (stack', h') \<Longrightarrow> contractUse stack' h'"
| popped: "contractUse stack h \<Longrightarrow> stackPop stack h = (r, stack', h')
           \<Longrightarrow> contractUse stack' h'"
| cleared: "contractUse stack h \<Longrightarrow> stackClear stack h = Some (stack', h')
           \<Longrightarrow> contractUse stack' h'"
| elsewhere: "contractUse stack h \<Longrightarrow> stackIterator stack h = Some ns
           \<Longrightarrow> \<forall>n \<in> set ns. h' n = h n \<Longrightarrow> contractUse stack h'"

text \<open>A store in which every node is unlinked and has no fields of its own.\<close>

definition unlinkedHeap :: "nat heap" where
  "unlinkedHeap = (\<lambda>_. stackNodeCreate None)"

section \<open>Properties\<close>

subsection \<open>The loops, unfolded once\<close>

lemma yieldParents_None: "yieldParents h None = Some []"
  by (subst yieldParents.simps) simp

lemma yieldParents_Some:
  "yieldParents h (Some r) =
     Option.bind (yieldParents h (parent (h r))) (\<lambda>rest. Some (r # rest))"
  by (subst yieldParents.simps) simp

lemma stackClear_empty: "top_node stack = None \<Longrightarrow> stackClear stack h = Some (stack, h)"
  by (subst stackClear.simps) (simp add: guard_def)

lemma stackClear_step:
  "top_node stack = Some n \<Longrightarrow>
   stackClear stack h =
     stackClear (stack\<lparr> top_node := parent (h n), count := count stack - 1 \<rparr>)
                (h(n := (h n)\<lparr> parent := None \<rparr>))"
  by (subst stackClear.simps) (simp add: guard_def stackPop_def sentinel_def)

lemma stackDepth_loop_None: "stackDepth_loop h None d = Some d"
  by (subst stackDepth_loop.simps) simp

lemma stackDepth_loop_Some:
  "stackDepth_loop h (Some r) d = stackDepth_loop h (parent (h r)) (d + 1)"
  by (subst stackDepth_loop.simps) simp



subsection \<open>Chains\<close>

lemma linked_yieldParents: "linked h x ns \<Longrightarrow> yieldParents h x = Some ns"
  by (induction ns arbitrary: x)
     (simp_all add: yieldParents_None yieldParents_Some sentinel_def)

lemma yieldParents_linked: "yieldParents h x = Some ns \<Longrightarrow> linked h x ns"
  by (rule yieldParents.raw_induct [where P = linked])
     (auto simp: sentinel_def split: option.splits Option.bind_splits)

lemma linked_unique: "linked h x as \<Longrightarrow> linked h x bs \<Longrightarrow> as = bs"
proof (induction as arbitrary: x bs)
  case Nil
  then show ?case by (cases bs) (simp_all add: sentinel_def)
next
  case (Cons a as)
  then show ?case by (cases bs) (auto simp: sentinel_def)
qed

lemma linked_from_member: "linked h x (as @ n # bs) \<Longrightarrow> linked h (Some n) (n # bs)"
  by (induction as arbitrary: x) simp_all

lemma linked_head_fresh:
  assumes "linked h (Some n) (n # ns)"
  shows "n \<notin> set ns"
proof
  assume "n \<in> set ns"
  then obtain as bs where split: "ns = as @ n # bs"
    by (auto dest: split_list)
  from assms have "linked h (parent (h n)) (as @ n # bs)"
    by (simp add: split)
  then have "linked h (Some n) (n # bs)"
    by (rule linked_from_member)
  with assms have "n # ns = n # bs"
    by (rule linked_unique)
  with split show False by simp
qed

lemma linked_distinct: "linked h x ns \<Longrightarrow> distinct ns"
proof (induction ns arbitrary: x)
  case Nil
  then show ?case by simp
next
  case (Cons n ns)
  then have "linked h (Some n) (n # ns)" by simp
  then have "n \<notin> set ns" by (rule linked_head_fresh)
  moreover from Cons.prems have "linked h (parent (h n)) ns" by simp
  then have "distinct ns" by (rule Cons.IH)
  ultimately show ?case by simp
qed

lemma linked_frame:
  "\<forall>n \<in> set ns. parent (h' n) = parent (h n) \<Longrightarrow> linked h' x ns = linked h x ns"
  by (induction ns arbitrary: x) simp_all

lemma linked_update:
  "n \<notin> set ns \<Longrightarrow> linked (h(n := v)) x ns = linked h x ns"
  by (rule linked_frame) auto

subsection \<open>Popping\<close>

text \<open>
  Claim C3. For every stack, \<^verbatim>\<open>stackPop\<close> on an empty stack returns the empty marker and
  leaves the stack and the store as they were. Otherwise it returns the old top node \<open>n\<close>,
  the new top is the parent that \<open>n\<close> had, the parent of \<open>n\<close> is reset to the empty marker,
  and nothing else changes in the store, neither the other fields of \<open>n\<close> nor any other
  node. When \<open>count\<close> is a safe integer, as the number of linked nodes always is, the new
  \<open>count\<close> is one less.
\<close>

theorem stackPop_behaviour:
  "(top_node stack = sentinel \<longrightarrow> stackPop stack h = (sentinel, stack, h)) \<and>
   (\<forall>n. top_node stack = Some n \<longrightarrow>
      (case stackPop stack h of
         (r, stack', h') \<Rightarrow>
           r = Some n \<and> top_node stack' = parent (h n) \<and> parent (h' n) = sentinel \<and>
           (isSafeInteger (count stack) \<longrightarrow> count stack' = count stack - 1) \<and>
           own_props (h' n) = own_props (h n) \<and> (\<forall>m. m \<noteq> n \<longrightarrow> h' m = h m)))"
  by (simp add: stackPop_def guard_def sentinel_def)

theorem stackPop_behaviour_witness:
  "stackPop stackCreate unlinkedHeap = (sentinel, stackCreate, unlinkedHeap) \<and>
   (case stackPush stackCreate unlinkedHeap 5 of
      (stack, h) \<Rightarrow>
        top_node stack = Some 5 \<and> isSafeInteger (count stack) \<and>
        (case stackPop stack h of
           (r, stack', h') \<Rightarrow>
             r = Some 5 \<and> top_node stack' = parent (h 5) \<and> parent (h' 5) = sentinel \<and>
             count stack' = count stack - 1 \<and> count stack' = 0))"
proof -
  obtain stack h where push: "stackPush stackCreate unlinkedHeap 5 = (stack, h)"
    by (cases "stackPush stackCreate unlinkedHeap 5")
  then have top: "top_node stack = Some 5" and cnt: "count stack = 1"
    by (auto simp: stackPush_def stackCreate_def)
  from cnt have safe: "isSafeInteger (count stack)"
    by (simp add: isSafeInteger_def)
  have empty: "top_node stackCreate = sentinel"
    by (simp add: stackCreate_def)
  from stackPop_behaviour [of stackCreate unlinkedHeap] empty
  have "stackPop stackCreate unlinkedHeap = (sentinel, stackCreate, unlinkedHeap)"
    by simp
  moreover from stackPop_behaviour [of stack h] top cnt safe
  have "case stackPop stack h of
           (r, stack', h') \<Rightarrow>
             r = Some 5 \<and> top_node stack' = parent (h 5) \<and> parent (h' 5) = sentinel \<and>
             count stack' = count stack - 1 \<and> count stack' = 0"
    by (auto split: prod.splits)
  ultimately show ?thesis using push top safe by simp
qed

subsection \<open>The top test and the default comparators\<close>




subsection \<open>Push and pop on a chain\<close>

lemma stackPop_None: "top_node stack = None \<Longrightarrow> stackPop stack h = (None, stack, h)"
  by (simp add: stackPop_def guard_def)

lemma stackPop_Some:
  "top_node stack = Some n \<Longrightarrow>
   stackPop stack h =
     (Some n, stack\<lparr> top_node := parent (h n), count := count stack - 1 \<rparr>,
      h(n := (h n)\<lparr> parent := None \<rparr>))"
  by (simp add: stackPop_def guard_def sentinel_def)

lemma stackPush_linked:
  assumes "linked h (top_node stack) ms" and "node \<notin> set ms"
    and "stackPush stack h node = (stack', h')"
  shows "linked h' (top_node stack') (node # ms) \<and> count stack' = count stack + 1"
proof -
  from assms(3) have s: "stack' = stack\<lparr> top_node := Some node, count := count stack + 1 \<rparr>"
    and h: "h' = h(node := (h node)\<lparr> parent := top_node stack \<rparr>)"
    by (auto simp: stackPush_def)
  from assms(1,2) have "linked h' (top_node stack) ms"
    unfolding h by (simp add: linked_update)
  then show ?thesis by (simp add: s h)
qed

lemma pushAll_linked:
  "linked h (top_node stack) ms \<Longrightarrow> distinct nodes \<Longrightarrow> set nodes \<inter> set ms = {} \<Longrightarrow>
   pushAll stack h nodes = (stack', h') \<Longrightarrow>
   linked h' (top_node stack') (rev nodes @ ms) \<and>
   count stack' = count stack + int (length nodes)"
proof (induction nodes arbitrary: stack h ms)
  case Nil
  then show ?case by simp
next
  case (Cons node nodes)
  obtain stack1 h1 where push: "stackPush stack h node = (stack1, h1)"
    by (cases "stackPush stack h node")
  from Cons.prems(3) have fresh: "node \<notin> set ms" by simp
  from stackPush_linked [OF Cons.prems(1) fresh push]
  have l1: "linked h1 (top_node stack1) (node # ms)"
    and c1: "count stack1 = count stack + 1" by simp_all
  from Cons.prems(2,3) have d: "distinct nodes" and disj: "set nodes \<inter> set (node # ms) = {}"
    by auto
  from Cons.prems(4) push have rest: "pushAll stack1 h1 nodes = (stack', h')" by simp
  from Cons.IH [OF l1 d disj rest] c1 show ?case by simp
qed

lemma stackPop_linked:
  assumes "linked h (top_node stack) (n # ns)" and "stackPop stack h = (r, stack', h')"
  shows "r = Some n \<and> linked h' (top_node stack') ns \<and> count stack' = count stack - 1
         \<and> parent (h' n) = None \<and> (\<forall>m. m \<noteq> n \<longrightarrow> h' m = h m)"
proof -
  from assms(1) have top: "top_node stack = Some n" and rest: "linked h (parent (h n)) ns"
    by simp_all
  from assms(1) top have "n \<notin> set ns"
    by (simp add: linked_head_fresh)
  with rest have "linked (h(n := (h n)\<lparr> parent := None \<rparr>)) (parent (h n)) ns"
    by (simp add: linked_update)
  with assms(2) top show ?thesis
    by (auto simp: stackPop_Some)
qed

lemma popTimes_linked:
  "linked h (top_node stack) (ns @ ms) \<Longrightarrow> popTimes (length ns) stack h = (rs, stack', h') \<Longrightarrow>
   rs = map Some ns \<and> linked h' (top_node stack') ms \<and>
   count stack' = count stack - int (length ns)"
proof (induction ns arbitrary: stack h rs)
  case Nil
  then show ?case by simp
next
  case (Cons n ns)
  obtain r stack1 h1 where pop: "stackPop stack h = (r, stack1, h1)"
    by (cases "stackPop stack h")
  from Cons.prems(1) have "linked h (top_node stack) (n # (ns @ ms))" by simp
  from stackPop_linked [OF this pop]
  have r: "r = Some n" and l1: "linked h1 (top_node stack1) (ns @ ms)"
    and c1: "count stack1 = count stack - 1" by simp_all
  obtain rs1 where rest: "popTimes (length ns) stack1 h1 = (rs1, stack', h')"
    and rs: "rs = r # rs1"
    using Cons.prems(2) pop by (auto split: prod.splits)
  from Cons.IH [OF l1 rest] r rs c1 show ?case by simp
qed

text \<open>
  Claim C1. Push any list of distinct nodes onto a new stack, in any store. Then \<open>count\<close>
  is the number of nodes pushed and \<^verbatim>\<open>stackPeek\<close> gives the last node pushed (the empty
  marker when none was). As many calls of \<^verbatim>\<open>stackPop\<close> as there were pushes return the
  nodes in reverse push order, and leave \<open>count\<close> at 0 and \<^verbatim>\<open>stackPeek\<close> empty. The
  pushed nodes need not be unlinked beforehand: \<^verbatim>\<open>stackPush\<close> overwrites the slot.
\<close>

theorem push_pop_lifo:
  assumes "distinct nodes"
    and "pushAll stackCreate h0 nodes = (stack, h)"
    and "popTimes (length nodes) stack h = (rs, stack', h')"
  shows "count stack = int (length nodes) \<and>
         stackPeek stack = (if nodes = [] then sentinel else Some (last nodes)) \<and>
         rs = map Some (rev nodes) \<and>
         count stack' = 0 \<and> stackPeek stack' = sentinel"
proof -
  have start: "linked h0 (top_node stackCreate) []"
    by (simp add: stackCreate_def)
  from pushAll_linked [OF start assms(1) _ assms(2)]
  have chain: "linked h (top_node stack) (rev nodes @ [])"
    and cnt: "count stack = int (length nodes)"
    by (simp_all add: stackCreate_def)
  have peek: "stackPeek stack = (if nodes = [] then sentinel else Some (last nodes))"
  proof (cases "rev nodes")
    case Nil
    with chain show ?thesis by (simp add: stackPeek_def)
  next
    case (Cons n ns)
    then have "nodes = rev ns @ [n]" by (simp add: rev_swap)
    moreover from chain Cons have "top_node stack = Some n" by simp
    ultimately show ?thesis by (simp add: stackPeek_def)
  qed
  from assms(3) have "popTimes (length (rev nodes)) stack h = (rs, stack', h')" by simp
  from popTimes_linked [OF chain this] cnt peek show ?thesis
    by (simp add: stackPeek_def)
qed

theorem push_pop_lifo_witness:
  "distinct [7, 8, 9 :: nat] \<and>
   pushAll stackCreate unlinkedHeap [7, 8, 9] =
     (\<lparr> top_node = Some 9, count = 3 \<rparr>,
      unlinkedHeap(7 := (unlinkedHeap 7)\<lparr> parent := None \<rparr>,
                   8 := (unlinkedHeap 8)\<lparr> parent := Some 7 \<rparr>,
                   9 := (unlinkedHeap 9)\<lparr> parent := Some 8 \<rparr>)) \<and>
   fst (popTimes 3 \<lparr> top_node = Some 9, count = 3 \<rparr>
      (unlinkedHeap(7 := (unlinkedHeap 7)\<lparr> parent := None \<rparr>,
                   8 := (unlinkedHeap 8)\<lparr> parent := Some 7 \<rparr>,
                   9 := (unlinkedHeap 9)\<lparr> parent := Some 8 \<rparr>))) = [Some 9, Some 8, Some 7]"
proof -
  let ?h = "unlinkedHeap(7 := (unlinkedHeap 7)\<lparr> parent := None \<rparr>,
                   8 := (unlinkedHeap 8)\<lparr> parent := Some 7 \<rparr>,
                   9 := (unlinkedHeap 9)\<lparr> parent := Some 8 \<rparr>)"
  have d: "distinct [7, 8, 9 :: nat]" by simp
  have push: "pushAll stackCreate unlinkedHeap [7, 8, 9] = (\<lparr> top_node = Some 9, count = 3 \<rparr>, ?h)"
    by (simp add: stackPush_def stackCreate_def sentinel_def)
  have len: "length [7, 8, 9 :: nat] = 3" by simp
  obtain rs stack' h' where pop: "popTimes 3 \<lparr> top_node = Some 9, count = 3 \<rparr> ?h = (rs, stack', h')"
    by (cases "popTimes 3 \<lparr> top_node = Some 9, count = 3 \<rparr> ?h")
  from push_pop_lifo [OF d push pop [folded len]] have "rs = [Some 9, Some 8, Some 7]" by simp
  with pop have "fst (popTimes 3 \<lparr> top_node = Some 9, count = 3 \<rparr> ?h) = [Some 9, Some 8, Some 7]"
    by (simp only: fst_conv)
  with d push show ?thesis by (simp only: simp_thms)
qed

subsection \<open>Clearing\<close>

text \<open>
  On a chain that ends, \<^verbatim>\<open>stackClear\<close> returns: it pops once per node of the chain, so it
  takes the length of the chain from \<open>count\<close> and resets the parent of each of its nodes.
\<close>

lemma stackClear_linked:
  "linked h (top_node stack) ns \<Longrightarrow>
   stackClear stack h =
     Some (stack\<lparr> top_node := None, count := count stack - int (length ns) \<rparr>,
           (\<lambda>r. if r \<in> set ns then (h r)\<lparr> parent := None \<rparr> else h r))"
proof (induction ns arbitrary: stack h)
  case Nil
  then have "top_node stack = None" by (simp add: sentinel_def)
  then show ?case by (simp add: stackClear_empty)
next
  case (Cons n ns)
  let ?stack1 = "stack\<lparr> top_node := parent (h n), count := count stack - 1 \<rparr>"
  let ?h1 = "h(n := (h n)\<lparr> parent := None \<rparr>)"
  from Cons.prems have top: "top_node stack = Some n" by simp
  from Cons.prems top have fresh: "n \<notin> set ns"
    by (simp add: linked_head_fresh)
  from Cons.prems fresh have "linked ?h1 (top_node ?stack1) ns"
    by (simp add: linked_update)
  from Cons.IH [OF this]
  have "stackClear ?stack1 ?h1 =
     Some (?stack1\<lparr> top_node := None, count := count ?stack1 - int (length ns) \<rparr>,
           (\<lambda>r. if r \<in> set ns then (?h1 r)\<lparr> parent := None \<rparr> else ?h1 r))" .
  moreover have "(\<lambda>r. if r \<in> set ns then (?h1 r)\<lparr> parent := None \<rparr> else ?h1 r) =
     (\<lambda>r. if r \<in> set (n # ns) then (h r)\<lparr> parent := None \<rparr> else h r)"
    using fresh by (auto simp: fun_eq_iff)
  ultimately show ?case
    by (simp add: stackClear_step [OF top])
qed

text \<open>
  A program has finitely many objects. In a store where only finitely many nodes have a
  parent, \<^verbatim>\<open>stackClear\<close> returns from every stack state, with or without a cycle: each pop
  either resets a parent that was set, or finds none and empties the stack.
\<close>

lemma stackClear_returns:
  "finite {r. parent (h r) \<noteq> None} \<Longrightarrow> \<exists>y. stackClear stack h = Some y"
proof (induction "card {r. parent (h r) \<noteq> None}" arbitrary: stack h rule: less_induct)
  case less
  show ?case
  proof (cases "top_node stack")
    case None
    then show ?thesis by (simp add: stackClear_empty)
  next
    case (Some n)
    let ?stack1 = "stack\<lparr> top_node := parent (h n), count := count stack - 1 \<rparr>"
    let ?h1 = "h(n := (h n)\<lparr> parent := None \<rparr>)"
    have step: "stackClear stack h = stackClear ?stack1 ?h1"
      by (rule stackClear_step [OF Some])
    show ?thesis
    proof (cases "parent (h n)")
      case None
      then have "stackClear ?stack1 ?h1 = Some (?stack1, ?h1)"
        by (simp add: stackClear_empty)
      with step show ?thesis by simp
    next
      case (Some p)
      then have eq: "{r. parent (?h1 r) \<noteq> None} = {r. parent (h r) \<noteq> None} - {n}"
        and mem: "n \<in> {r. parent (h r) \<noteq> None}"
        by auto
      from less.prems mem have "card ({r. parent (h r) \<noteq> None} - {n}) < card {r. parent (h r) \<noteq> None}"
        by (intro card_Diff1_less)
      moreover from less.prems have "finite ({r. parent (h r) \<noteq> None} - {n})" by simp
      ultimately have "\<exists>y. stackClear ?stack1 ?h1 = Some y"
        using less.hyps [of ?h1 ?stack1] by (simp only: eq)
      with step show ?thesis by simp
    qed
  qed
qed

lemma stackClear_top_None:
  "stackClear \<lparr> top_node = None, count = c \<rparr> h = Some (\<lparr> top_node = None, count = c \<rparr>, h)"
  by (simp add: stackClear_empty)

lemma stackClear_top_Some:
  "stackClear \<lparr> top_node = Some n, count = c \<rparr> h =
     stackClear \<lparr> top_node = parent (h n), count = c - 1 \<rparr> (h(n := (h n)\<lparr> parent := None \<rparr>))"
  by (simp add: stackClear_step [where n = n])

lemma reaches_linked: "reaches h x n \<Longrightarrow> linked h x ns \<Longrightarrow> n \<in> set ns"
proof (induction arbitrary: ns rule: reaches.induct)
  case (reaches_here h n)
  then show ?case by (cases ns) (simp_all add: sentinel_def)
next
  case (reaches_hop h m n)
  then show ?case by (cases ns) (simp_all add: sentinel_def)
qed

lemma linked_reaches: "n \<in> set ns \<Longrightarrow> linked h x ns \<Longrightarrow> reaches h x n"
  by (induction ns arbitrary: x) (auto intro: reaches.intros)

lemma linkedNodes_linked: "linked h x ns \<Longrightarrow> linkedNodes h x = set ns"
  by (auto simp: linkedNodes_def dest: reaches_linked linked_reaches)

lemma card_linkedNodes: "linked h x ns \<Longrightarrow> card (linkedNodes h x) = length ns"
  by (simp add: linkedNodes_linked linked_distinct distinct_card)

text \<open>
  Claim C4. Let a stack hold the nodes \<open>ns\<close>, linked from its top down to the empty marker,
  with \<open>count\<close> their number. Then \<^verbatim>\<open>stackClear\<close> returns, and after it \<open>count\<close> is 0, the top
  is the empty marker, and each of the nodes \<open>ns\<close> has its parent reset to the empty marker.
\<close>

theorem stackClear_unlinks:
  assumes "linked h (top_node stack) ns" and "count stack = int (length ns)"
  shows "\<exists>stack' h'. stackClear stack h = Some (stack', h') \<and>
           count stack' = 0 \<and> top_node stack' = sentinel \<and>
           (\<forall>n \<in> set ns. parent (h' n) = sentinel)"
  using stackClear_linked [OF assms(1)] assms(2)
  by (simp add: sentinel_def)

theorem stackClear_unlinks_witness:
  "linked (unlinkedHeap(2 := (unlinkedHeap 2)\<lparr> parent := Some 1 \<rparr>))
          (top_node \<lparr> top_node = Some 2, count = 2 \<rparr>) [2, 1] \<and>
   (\<exists>stack' h'.
      stackClear \<lparr> top_node = Some 2, count = 2 \<rparr>
                 (unlinkedHeap(2 := (unlinkedHeap 2)\<lparr> parent := Some 1 \<rparr>)) = Some (stack', h') \<and>
      count stack' = 0 \<and> top_node stack' = sentinel \<and>
      parent (h' 2) = sentinel \<and> parent (h' 1) = sentinel)"
proof -
  let ?h = "unlinkedHeap(2 := (unlinkedHeap 2)\<lparr> parent := Some 1 \<rparr>)"
  let ?s = "\<lparr> top_node = Some 2, count = 2 \<rparr>"
  have l: "linked ?h (top_node ?s) [2, 1]"
    by (simp add: unlinkedHeap_def stackNodeCreate_def)
  have c: "count ?s = int (length [2, 1 :: nat])" by simp
  from stackClear_unlinks [OF l c] l show ?thesis by auto
qed

text \<open>
  Claim C10, amended. \<^verbatim>\<open>stackClear\<close> has no assignment to \<open>count\<close> of its own: it only
  calls \<^verbatim>\<open>stackPop\<close>, which decrements \<open>count\<close> once per node popped. For every stack state
  whose chain of parents from the top ends at the empty marker, also a corrupted one whose
  \<open>count\<close> disagrees with the length of that chain, \<^verbatim>\<open>stackClear\<close> returns; and when
  \<open>count\<close> is a safe integer before and after, the \<open>count\<close> after it is the old \<open>count\<close>
  minus the number of nodes that were reachable from the top, so that it ends at 0 only
  when \<open>count\<close> was the length of the chain.
\<close>

theorem stackClear_count:
  assumes "linked h (top_node stack) ns"
    and "isSafeInteger (count stack)"
    and "isSafeInteger (count stack - int (length ns))"
  shows "\<exists>stack' h'. stackClear stack h = Some (stack', h') \<and>
           count stack' = count stack - int (card (linkedNodes h (top_node stack))) \<and>
           card (linkedNodes h (top_node stack)) = length ns \<and>
           (count stack' = 0 \<longrightarrow> count stack = int (length ns))"
  using stackClear_linked [OF assms(1)] card_linkedNodes [OF assms(1)]
  by auto

theorem stackClear_count_witness:
  "linked (unlinkedHeap(2 := (unlinkedHeap 2)\<lparr> parent := Some 1 \<rparr>))
          (top_node \<lparr> top_node = Some 2, count = 7 \<rparr>) [2, 1] \<and>
   isSafeInteger (count \<lparr> top_node = Some 2, count = 7 \<rparr>) \<and>
   isSafeInteger (count \<lparr> top_node = Some 2, count = 7 \<rparr> - int (length [2, 1 :: nat])) \<and>
   (\<exists>stack' h'.
      stackClear \<lparr> top_node = Some 2, count = 7 \<rparr>
                 (unlinkedHeap(2 := (unlinkedHeap 2)\<lparr> parent := Some 1 \<rparr>)) = Some (stack', h') \<and>
      count stack' = 5)"
proof -
  let ?h = "unlinkedHeap(2 := (unlinkedHeap 2)\<lparr> parent := Some 1 \<rparr>)"
  let ?s = "\<lparr> top_node = Some 2, count = 7 \<rparr>"
  have l: "linked ?h (top_node ?s) [2, 1]"
    by (simp add: unlinkedHeap_def stackNodeCreate_def)
  have s1: "isSafeInteger (count ?s)"
    and s2: "isSafeInteger (count ?s - int (length [2, 1 :: nat]))"
    by (simp_all add: isSafeInteger_def)
  from stackClear_count [OF l s1 s2] l s1 s2 show ?thesis by auto
qed

text \<open>
  The claim as written, for every stack state, fails on a chain with a cycle. Pushing node
  0, node 1 and node 0 again onto a new stack gives \<open>count = 3\<close> and the chain
  0, 1, 0, 1, ... from the top. Two nodes are reachable from the top, and \<^verbatim>\<open>stackClear\<close>
  pops three times: node 0, node 1, and node 0 once more, whose parent the first pop had
  reset. So \<open>count\<close> goes down by 3 and not by 2.
\<close>

lemma cyclic_reaches:
  "reaches h x n \<Longrightarrow> parent (h 0) = Some 1 \<Longrightarrow> parent (h 1) = Some 0 \<Longrightarrow>
   x = Some 0 \<or> x = Some 1 \<Longrightarrow> n = 0 \<or> n = 1"
  by (induction rule: reaches.induct) auto

theorem stackClear_count_counterexample:
  "(case pushAll stackCreate unlinkedHeap [0, 1, 0] of
      (stack, h) \<Rightarrow>
        count stack = 3 \<and> linkedNodes h (top_node stack) = {0, 1} \<and>
        (case stackClear stack h of
           None \<Rightarrow> False
         | Some (stack', h') \<Rightarrow>
             count stack' = 0 \<and>
             count stack' \<noteq> count stack - int (card (linkedNodes h (top_node stack)))))"
proof -
  let ?h = "unlinkedHeap(0 := (unlinkedHeap 0)\<lparr> parent := Some 1 \<rparr>,
                         1 := (unlinkedHeap 1)\<lparr> parent := Some 0 \<rparr>)"
  let ?s = "\<lparr> top_node = Some 0, count = 3 \<rparr>"
  have push: "pushAll stackCreate unlinkedHeap [0, 1, 0] = (?s, ?h)"
    by (simp add: stackPush_def stackCreate_def sentinel_def fun_eq_iff)
  have r0: "reaches ?h (Some 0) 0" by (rule reaches_here)
  have r1: "reaches ?h (Some 0) 1"
    by (rule reaches_hop) (simp add: reaches_here)
  have only: "n = 0 \<or> n = 1" if "reaches ?h (Some 0) n" for n
    using that by (rule cyclic_reaches) simp_all
  have nodes: "linkedNodes ?h (top_node ?s) = {0, 1}"
  proof (rule set_eqI)
    fix n
    show "n \<in> linkedNodes ?h (top_node ?s) \<longleftrightarrow> n \<in> {0, 1}"
      using only [of n] r0 r1 by (auto simp: linkedNodes_def)
  qed
  have "stackClear ?s ?h =
     Some (\<lparr> top_node = None, count = 0 \<rparr>,
           ?h(0 := (?h 0)\<lparr> parent := None \<rparr>, 1 := (?h 1)\<lparr> parent := None \<rparr>,
              0 := (unlinkedHeap 0)\<lparr> parent := None \<rparr>))"
    by (simp add: stackClear_top_Some stackClear_top_None fun_eq_iff)
  with push nodes show ?thesis by simp
qed

subsection \<open>The invariant of a stack used under the contract\<close>

lemma contractUse_chain:
  "contractUse stack h \<Longrightarrow> \<exists>ns. linked h (top_node stack) ns \<and> count stack = int (length ns)"
proof (induction rule: contractUse.induct)
  case (created h)
  have "linked h (top_node stackCreate) [] \<and> count stackCreate = int (length ([] :: ref list))"
    by (simp add: stackCreate_def)
  then show ?case by blast
next
  case (pushed stack h ns node stack' h')
  from pushed.hyps(2) have chain: "linked h (top_node stack) ns"
    by (simp add: stackIterator_def yieldParents_linked)
  with pushed.IH have cnt: "count stack = int (length ns)"
    by (auto dest: linked_unique)
  from stackPush_linked [OF chain pushed.hyps(3,4)] cnt
  have "linked h' (top_node stack') (node # ns) \<and> count stack' = int (length (node # ns))"
    by simp
  then show ?case by blast
next
  case (popped stack h r stack' h')
  then obtain ns where chain: "linked h (top_node stack) ns"
    and cnt: "count stack = int (length ns)" by blast
  show ?case
  proof (cases ns)
    case Nil
    with chain have "top_node stack = None" by (simp add: sentinel_def)
    with popped.hyps(2) have "stack' = stack" and "h' = h"
      by (simp_all add: stackPop_None)
    with chain cnt show ?thesis by blast
  next
    case (Cons n ms)
    with chain have "linked h (top_node stack) (n # ms)" by simp
    from stackPop_linked [OF this popped.hyps(2)] cnt Cons
    have "linked h' (top_node stack') ms \<and> count stack' = int (length ms)" by simp
    then show ?thesis by blast
  qed
next
  case (cleared stack h stack' h')
  then obtain ns where chain: "linked h (top_node stack) ns"
    and cnt: "count stack = int (length ns)" by blast
  from stackClear_linked [OF chain] cleared.hyps(2) cnt
  have "linked h' (top_node stack') [] \<and> count stack' = int (length ([] :: ref list))"
    by (auto simp: sentinel_def)
  then show ?case by blast
next
  case (elsewhere stack h ns h')
  from elsewhere.hyps(2) have chain: "linked h (top_node stack) ns"
    by (simp add: stackIterator_def yieldParents_linked)
  with elsewhere.IH have cnt: "count stack = int (length ns)"
    by (auto dest: linked_unique)
  from elsewhere.hyps(3) have "linked h' (top_node stack) ns = linked h (top_node stack) ns"
    by (intro linked_frame) simp
  with chain cnt show ?case by blast
qed

text \<open>
  Claim C2. A new stack has \<open>count = 0\<close> and an empty top, and every state that a stack
  reaches under the single-linkage contract, through \<^verbatim>\<open>stackPush\<close>, \<^verbatim>\<open>stackPop\<close> and
  \<^verbatim>\<open>stackClear\<close>, has \<open>count = 0\<close> exactly when its top is the empty marker.
\<close>

theorem count_zero_iff_empty:
  assumes "contractUse stack h"
  shows "(count stack = 0) = (top_node stack = sentinel)"
proof -
  from contractUse_chain [OF assms] obtain ns
    where "linked h (top_node stack) ns" and "count stack = int (length ns)" by blast
  then show ?thesis by (cases ns) (simp_all add: sentinel_def)
qed

theorem count_zero_iff_empty_witness:
  "contractUse stackCreate unlinkedHeap \<and>
   contractUse (fst (stackPush stackCreate unlinkedHeap 4)) (snd (stackPush stackCreate unlinkedHeap 4)) \<and>
   (count stackCreate = 0) = (top_node stackCreate = sentinel) \<and>
   count (fst (stackPush stackCreate unlinkedHeap 4)) = 1 \<and>
   top_node (fst (stackPush stackCreate unlinkedHeap 4)) = Some 4"
proof -
  have new: "contractUse stackCreate unlinkedHeap" by (rule created)
  have it: "stackIterator stackCreate unlinkedHeap = Some []"
    by (simp add: stackIterator_def stackCreate_def sentinel_def yieldParents_None)
  have one: "contractUse (fst (stackPush stackCreate unlinkedHeap 4))
                         (snd (stackPush stackCreate unlinkedHeap 4))"
    by (rule pushed [OF new it]) simp_all
  from count_zero_iff_empty [OF new] count_zero_iff_empty [OF one] new one
  show ?thesis by (simp add: stackPush_def stackCreate_def)
qed

subsection \<open>Queries\<close>

lemma passesAll_iff: "passesAll fn n = (\<forall>f \<in> set fn. f n)"
  by (induction fn) auto

lemma stackQuery_loop_eq:
  "stackQuery_loop fn ns r = r \<union> {n \<in> set ns. \<forall>f \<in> set fn. f n}"
  by (induction ns arbitrary: r) (auto simp: passesAll_iff)

text \<open>
  Claim C7. Let the nodes \<open>ns\<close> be those linked from the top of a stack down to the empty
  marker. For every list of predicates, \<^verbatim>\<open>stackQuery\<close> returns the set of exactly those of
  \<open>ns\<close> that satisfy every predicate. With no predicate it returns the set of all of \<open>ns\<close>,
  and the size of that set is \<open>count\<close> when \<open>count\<close> is the number of linked nodes, as it is
  in every stack that satisfies the invariant of the data model. With a predicate that is
  always false it returns the empty set.
\<close>

theorem stackQuery_result:
  assumes "linked h (top_node stack) ns"
  shows "stackQuery stack h fn = Some {n \<in> set ns. \<forall>f \<in> set fn. f n} \<and>
         (\<forall>n f. f \<in> set fn \<and> \<not> f n \<longrightarrow> stackQuery stack h fn \<noteq> None \<and> n \<notin> the (stackQuery stack h fn)) \<and>
         stackQuery stack h [] = Some (set ns) \<and>
         (count stack = int (length ns) \<longrightarrow> int (card (set ns)) = count stack) \<and>
         stackQuery stack h [\<lambda>n. False] = Some {}"
proof -
  from assms have "stackIterator stack h = Some ns"
    by (simp add: stackIterator_def linked_yieldParents)
  then have "stackQuery stack h fn' = Some {n \<in> set ns. \<forall>f \<in> set fn'. f n}" for fn'
    by (simp add: stackQuery_def stackQuery_loop_eq)
  moreover from assms have "card (set ns) = length ns"
    by (simp add: linked_distinct distinct_card)
  ultimately show ?thesis by auto
qed

theorem stackQuery_result_witness:
  "linked (unlinkedHeap(2 := (unlinkedHeap 2)\<lparr> parent := Some 1 \<rparr>))
          (top_node \<lparr> top_node = Some 2, count = 2 \<rparr>) [2, 1] \<and>
   stackQuery \<lparr> top_node = Some 2, count = 2 \<rparr>
      (unlinkedHeap(2 := (unlinkedHeap 2)\<lparr> parent := Some 1 \<rparr>)) [\<lambda>n. n < 2, \<lambda>n. 0 < n] = Some {1} \<and>
   stackQuery \<lparr> top_node = Some 2, count = 2 \<rparr>
      (unlinkedHeap(2 := (unlinkedHeap 2)\<lparr> parent := Some 1 \<rparr>)) [] = Some {2, 1} \<and>
   int (card {2, 1 :: nat}) = count \<lparr> top_node = Some 2, count = 2 \<rparr>"
proof -
  let ?h = "unlinkedHeap(2 := (unlinkedHeap 2)\<lparr> parent := Some 1 \<rparr>)"
  let ?s = "\<lparr> top_node = Some 2, count = 2 \<rparr>"
  have l: "linked ?h (top_node ?s) [2, 1]"
    by (simp add: unlinkedHeap_def stackNodeCreate_def)
  have "{n \<in> set [2, 1 :: nat]. \<forall>f \<in> set [\<lambda>n. n < 2, \<lambda>n. 0 < n]. f n} = {1}"
    by auto
  with stackQuery_result [OF l, of "[\<lambda>n. n < 2, \<lambda>n. 0 < n]"] l
  show ?thesis by simp
qed

subsection \<open>Depth\<close>

lemma stackDepth_loop_linked:
  "linked h x ns \<Longrightarrow> stackDepth_loop h x d = Some (d + int (length ns))"
  by (induction ns arbitrary: x d)
     (simp_all add: stackDepth_loop_None stackDepth_loop_Some sentinel_def)

lemma stackDepth_loop_returns:
  "stackDepth_loop h x d = Some r \<Longrightarrow> \<exists>ns. linked h x ns \<and> r = d + int (length ns)"
proof (rule stackDepth_loop.raw_induct
    [where P = "\<lambda>h x d r. \<exists>ns. linked h x ns \<and> r = d + int (length ns)"])
  fix loop :: "'a heap \<Rightarrow> ref option \<Rightarrow> int \<Rightarrow> int option" and h x d r
  assume IH: "\<And>h x d r. loop h x d = Some r \<Longrightarrow> \<exists>ns. linked h x ns \<and> r = d + int (length ns)"
    and step: "(case x of None \<Rightarrow> Some d | Some n \<Rightarrow> loop h (parent (h n)) (d + 1)) = Some r"
  show "\<exists>ns. linked h x ns \<and> r = d + int (length ns)"
  proof (cases x)
    case None
    with step have "linked h x [] \<and> r = d + int (length ([] :: ref list))"
      by (simp add: sentinel_def)
    then show ?thesis by blast
  next
    case (Some n)
    with step have "loop h (parent (h n)) (d + 1) = Some r" by simp
    from IH [OF this] obtain ns
      where "linked h (parent (h n)) ns" and "r = d + 1 + int (length ns)" by blast
    with Some have "linked h x (n # ns) \<and> r = d + int (length (n # ns))" by simp
    then show ?thesis by blast
  qed
qed

text \<open>
  Claim C8. \<^verbatim>\<open>stackDepth(node)\<close> is the number of nodes on the chain of parents that starts
  at the parent of \<open>node\<close> and ends at the empty marker, \<open>node\<close> itself not counted: when that
  chain is \<open>ns\<close> the result is the length of \<open>ns\<close>, and \<^verbatim>\<open>stackDepth\<close> returns only when there
  is such a chain. After pushing distinct nodes \<open>a\<close>, \<open>b\<close>, \<open>c\<close> in that order onto a new
  stack, the depth of \<open>c\<close> is 2, that of \<open>b\<close> is 1 and that of \<open>a\<close> is 0.
\<close>

theorem stackDepth_counts_ancestors:
  "(linked h (parent (h node)) ns \<longrightarrow> stackDepth h node = Some (int (length ns))) \<and>
   (stackDepth h node = Some d \<longrightarrow> (\<exists>ms. linked h (parent (h node)) ms \<and> d = int (length ms))) \<and>
   (distinct [a, b, c] \<longrightarrow>
      (case pushAll stackCreate h0 [a, b, c] of
         (stack, h') \<Rightarrow> stackDepth h' c = Some 2 \<and> stackDepth h' b = Some 1 \<and>
                        stackDepth h' a = Some 0))"
proof -
  have "stackDepth h node = Some (int (length ns))" if "linked h (parent (h node)) ns"
    using stackDepth_loop_linked [OF that, of 0] by (simp add: stackDepth_def)
  moreover have "\<exists>ms. linked h (parent (h node)) ms \<and> d = int (length ms)"
    if "stackDepth h node = Some d"
    using stackDepth_loop_returns [of h "parent (h node)" 0 d] that
    by (simp add: stackDepth_def)
  moreover have "case pushAll stackCreate h0 [a, b, c] of
         (stack, h') \<Rightarrow> stackDepth h' c = Some 2 \<and> stackDepth h' b = Some 1 \<and>
                        stackDepth h' a = Some 0" if "distinct [a, b, c]"
    using that
    by (simp add: stackPush_def stackCreate_def sentinel_def stackDepth_def
          stackDepth_loop_None stackDepth_loop_Some)
  ultimately show ?thesis by blast
qed

theorem stackDepth_counts_ancestors_witness:
  "distinct [7, 8, 9 :: nat] \<and>
   linked (snd (pushAll stackCreate unlinkedHeap [7, 8, 9]))
          (parent (snd (pushAll stackCreate unlinkedHeap [7, 8, 9]) 9)) [8, 7] \<and>
   stackDepth (snd (pushAll stackCreate unlinkedHeap [7, 8, 9])) 9 = Some 2 \<and>
   stackDepth (snd (pushAll stackCreate unlinkedHeap [7, 8, 9])) 8 = Some 1 \<and>
   stackDepth (snd (pushAll stackCreate unlinkedHeap [7, 8, 9])) 7 = Some 0"
proof -
  have d: "distinct [7, 8, 9 :: nat]" by simp
  have l: "linked (snd (pushAll stackCreate unlinkedHeap [7, 8, 9]))
          (parent (snd (pushAll stackCreate unlinkedHeap [7, 8, 9]) 9)) [8, 7]"
    by (simp add: stackPush_def stackCreate_def sentinel_def)
  from stackDepth_counts_ancestors
         [of "snd (pushAll stackCreate unlinkedHeap [7, 8, 9])" 9 "[8, 7]" 2 7 8 9 unlinkedHeap] d l
  show ?thesis by (simp split: prod.splits)
qed

subsection \<open>Traversals\<close>

text \<open>
  Claim C9. After pushing distinct nodes \<open>a\<close>, \<open>b\<close>, \<open>c\<close> in that order onto a new stack,
  \<^verbatim>\<open>stackIterator\<close> yields \<open>c, b, a\<close>, \<^verbatim>\<open>stackIterateFrom(b)\<close> yields \<open>b, a\<close> and
  \<^verbatim>\<open>stackIterateToParent(b)\<close> yields \<open>a\<close>. In general each traversal yields the list \<open>ns\<close>
  exactly when \<open>ns\<close> is the chain of nodes from its start point (the top, the node, the
  parent of the node) down to the empty marker, which is not yielded; and
  \<^verbatim>\<open>stackIterateFrom\<close> at the top of a stack yields what \<^verbatim>\<open>stackIterator\<close> yields.
\<close>

theorem traversals_follow_parents:
  "(distinct [a, b, c] \<longrightarrow>
      (case pushAll stackCreate h0 [a, b, c] of
         (stack, h') \<Rightarrow> stackIterator stack h' = Some [c, b, a] \<and>
                        stackIterateFrom h' b = Some [b, a] \<and>
                        stackIterateToParent h' b = Some [a])) \<and>
   (stackIterator stack h = Some ns) = linked h (top_node stack) ns \<and>
   (stackIterateFrom h node = Some ns) = linked h (Some node) ns \<and>
   (stackIterateToParent h node = Some ns) = linked h (parent (h node)) ns \<and>
   (top_node stack = Some node \<longrightarrow> stackIterateFrom h node = stackIterator stack h)"
proof -
  have "case pushAll stackCreate h0 [a, b, c] of
         (stack, h') \<Rightarrow> stackIterator stack h' = Some [c, b, a] \<and>
                        stackIterateFrom h' b = Some [b, a] \<and>
                        stackIterateToParent h' b = Some [a]" if "distinct [a, b, c]"
    using that
    by (simp add: stackPush_def stackCreate_def sentinel_def stackIterator_def
          stackIterateFrom_def stackIterateToParent_def yieldParents_None yieldParents_Some)
  moreover have "(yieldParents h x = Some ns) = linked h x ns" for x
    by (auto intro: linked_yieldParents yieldParents_linked)
  ultimately show ?thesis
    by (simp add: stackIterator_def stackIterateFrom_def stackIterateToParent_def)
qed

theorem traversals_follow_parents_witness:
  "distinct [7, 8, 9 :: nat] \<and>
   stackIterator (fst (pushAll stackCreate unlinkedHeap [7, 8, 9]))
                 (snd (pushAll stackCreate unlinkedHeap [7, 8, 9])) = Some [9, 8, 7] \<and>
   stackIterateFrom (snd (pushAll stackCreate unlinkedHeap [7, 8, 9])) 8 = Some [8, 7] \<and>
   stackIterateToParent (snd (pushAll stackCreate unlinkedHeap [7, 8, 9])) 8 = Some [7] \<and>
   top_node (fst (pushAll stackCreate unlinkedHeap [7, 8, 9])) = Some 9 \<and>
   stackIterateFrom (snd (pushAll stackCreate unlinkedHeap [7, 8, 9])) 9 = Some [9, 8, 7]"
proof -
  have d: "distinct [7, 8, 9 :: nat]" by simp
  have t: "top_node (fst (pushAll stackCreate unlinkedHeap [7, 8, 9])) = Some 9"
    by (simp add: stackPush_def stackCreate_def)
  from traversals_follow_parents
         [of 7 8 9 unlinkedHeap "fst (pushAll stackCreate unlinkedHeap [7, 8, 9])"
             "snd (pushAll stackCreate unlinkedHeap [7, 8, 9])" _ 9] d t
  show ?thesis by (simp add: stackPush_def stackCreate_def)
qed

subsection \<open>The two source files agree\<close>
























































end
